theory Spec2Isabelle
  imports Main "HOL-Library.Sublist"
begin

section \<open>Text and JSON values\<close>

text \<open>
  JavaScript strings are modelled as \<open>string\<close>, one \<open>char\<close> per code unit (code units
  below 256). Field values of the stream and chat payloads are the ones the declared
  TypeScript types admit: a string or \<open>null\<close>; an absent key (\<open>undefined\<close>) is \<open>None\<close> in
  the object's map. On such values \<open>===\<close> is equality of \<open>jsval option\<close>.
\<close>

abbreviation CR :: char where "CR \<equiv> CHR 0x0D"
abbreviation LF :: char where "LF \<equiv> CHR 0x0A"

datatype jsval = JNull | JStr string

type_synonym jsobject = "string \<rightharpoonup> jsval"

text \<open>Truthiness of a value as used by \<open>if (v)\<close>, \<open>!v\<close>, \<open>a && b\<close> and \<open>a || b\<close>.\<close>

fun truthy :: "jsval option \<Rightarrow> bool" where
  "truthy None = False"
| "truthy (Some JNull) = False"
| "truthy (Some (JStr s)) = (s \<noteq> [])"

text \<open>\<open>obj?.key\<close>: \<open>undefined\<close> when the object itself is \<open>null\<close> or \<open>undefined\<close>.\<close>

definition opt_field :: "jsobject option \<Rightarrow> string \<Rightarrow> jsval option" where
  "opt_field obj k = (case obj of None \<Rightarrow> None | Some ob \<Rightarrow> ob k)"

text \<open>The string a value contributes to a \<open>+\<close> concatenation or a template literal.\<close>

definition js_string :: "jsval option \<Rightarrow> string" where
  "js_string v = (case v of None \<Rightarrow> ''undefined'' | Some JNull \<Rightarrow> ''null'' | Some (JStr s) \<Rightarrow> s)"

text \<open>\<open>String.prototype.trim\<close>: white space and line terminators among the code units below 256.\<close>

definition is_space :: "char \<Rightarrow> bool" where
  "is_space c = (c \<in> set [CHR 0x09, CHR 0x0A, CHR 0x0B, CHR 0x0C, CHR 0x0D, CHR 0x20, CHR 0xA0])"

definition trim :: "string \<Rightarrow> string" where
  "trim s = rev (dropWhile is_space (rev (dropWhile is_space s)))"

text \<open>\<open>s.indexOf(needle)\<close>, with \<open>None\<close> for \<open>-1\<close>; \<open>s.startsWith(p)\<close> is \<open>prefix p s\<close>.\<close>

fun indexOf :: "string \<Rightarrow> string \<Rightarrow> nat option" where
  "indexOf [] needle = (if needle = [] then Some 0 else None)"
| "indexOf (c # cs) needle =
     (if prefix needle (c # cs) then Some 0 else map_option Suc (indexOf cs needle))"

text \<open>\<open>s.split(sep)\<close> for a one-character separator.\<close>

fun split_on :: "char \<Rightarrow> string \<Rightarrow> string list" where
  "split_on sep [] = [[]]"
| "split_on sep (c # cs) =
     (if c = sep then [] # split_on sep cs
      else (case split_on sep cs of [] \<Rightarrow> [[c]] | l # ls \<Rightarrow> (c # l) # ls))"

text \<open>\<open>xs.findIndex(p)\<close>, with \<open>None\<close> for \<open>-1\<close>.\<close>

fun findIndex :: "('a \<Rightarrow> bool) \<Rightarrow> 'a list \<Rightarrow> nat option" where
  "findIndex p [] = None"
| "findIndex p (x # xs) = (if p x then Some 0 else map_option Suc (findIndex p xs))"

section \<open>Task stream: the frame decoder (the read loop of \<open>connect\<close>)\<close>

record frame =
  eventType :: string
  data :: string

text \<open>\<open>buffer.replace(/\r\n/g, "\n")\<close>.\<close>

fun replace_crlf :: "string \<Rightarrow> string" where
  "replace_crlf (c # d # cs) =
     (if c = CR \<and> d = LF then LF # replace_crlf cs else c # replace_crlf (d # cs))"
| "replace_crlf cs = cs"

text \<open>The body of \<open>for (const line of lines)\<close>, and the loop over \<open>raw.split("\n")\<close>.\<close>

definition frame_line :: "frame \<Rightarrow> string \<Rightarrow> frame" where
  "frame_line f line =
     (if prefix ''event:'' line then f\<lparr>eventType := trim (drop 6 line)\<rparr>
      else if prefix ''data:'' line then f\<lparr>data := data f @ trim (drop 5 line)\<rparr>
      else f)"

definition parse_frame :: "string \<Rightarrow> frame" where
  "parse_frame raw =
     foldl frame_line \<lparr>eventType = ''message'', data = ''''\<rparr> (split_on LF raw)"

lemma indexOf_bound: "indexOf s n = Some i \<Longrightarrow> i + length n \<le> length s"
  by (induction s arbitrary: i) (auto split: if_splits dest: prefix_length_le)

text \<open>
  The inner loop \<open>while (boundary !== -1)\<close>: cut the buffer at the first blank line, parse
  the text before it, go on with the text after it. It returns the frames in the order
  they were cut and the buffer that is left.
\<close>

function drain :: "string \<Rightarrow> frame list \<times> string" where
  "drain buffer =
     (case indexOf buffer [LF, LF] of
        None \<Rightarrow> ([], buffer)
      | Some boundary \<Rightarrow>
          (let raw = take boundary buffer;
               rest = drop (boundary + 2) buffer;
               (fs, buffer') = drain rest
           in (parse_frame raw # fs, buffer')))"
  by pat_completeness auto
termination
  apply (relation "measure length")
   apply simp
  subgoal for buffer boundary
    using indexOf_bound [of buffer "[LF, LF]" boundary] by simp
  done

text \<open>One pass of the outer loop for a chunk that was read (\<open>done\<close> false).\<close>

definition read_chunk :: "string \<Rightarrow> string \<Rightarrow> frame list \<times> string" where
  "read_chunk buffer chunk = drain (replace_crlf (buffer @ chunk))"

text \<open>The outer loop over the chunks the reader delivers, from a given buffer.\<close>

fun read_loop :: "string \<Rightarrow> string list \<Rightarrow> frame list \<times> string" where
  "read_loop buffer [] = ([], buffer)"
| "read_loop buffer (chunk # chunks) =
     (let (fs, buffer') = read_chunk buffer chunk;
          (gs, buffer'') = read_loop buffer' chunks
      in (fs @ gs, buffer''))"

text \<open>
  The texts the decoder is specified for end their lines with \<open>\n\<close> or \<open>\r\n\<close>: a carriage
  return occurs in them only directly before a line feed.
\<close>

fun cr_before_lf_only :: "string \<Rightarrow> bool" where
  "cr_before_lf_only (c # d # cs) = ((c = CR \<longrightarrow> d = LF) \<and> cr_before_lf_only (d # cs))"
| "cr_before_lf_only [c] = (c \<noteq> CR)"
| "cr_before_lf_only [] = True"

text \<open>
  What the decoder needs is less: that no carriage return stands directly before a
  \<open>\r\n\<close> pair. This also holds for every part of such a text, cut anywhere.
\<close>

definition line_endings_ok :: "string \<Rightarrow> bool" where
  "line_endings_ok s = (indexOf s [CR, CR, LF] = None)"

fun starts_LF :: "string \<Rightarrow> bool" where
  "starts_LF (c # cs) = (c = LF)"
| "starts_LF [] = False"

fun crlf_free :: "string \<Rightarrow> bool" where
  "crlf_free (c # d # cs) = (\<not> (c = CR \<and> d = LF) \<and> crlf_free (d # cs))"
| "crlf_free cs = True"

section \<open>Task stream: the update reconciler\<close>

text \<open>
  \<open>JSON.parse(data)\<close> gives the payload \<open>{ type?, task?, comment? }\<close>. A task or a comment
  is an object from field names to values, so that a partial payload is a map with a
  smaller domain.
\<close>

record payload =
  ptype :: "string option"
  task :: "jsobject option"
  comment :: "jsobject option"

text \<open>
  One run of the task-stream effect: its \<open>isCancelled\<close> flag and abort controller, the
  \<open>selectedTask\<close> its closure sees, the calls of \<open>fetch\<close> it has made and the retry timers
  it has pending.
\<close>

record subscription =
  isCancelled :: bool
  aborted :: bool
  closure_selectedTask :: "jsobject option"
  fetches :: nat
  retry_timers :: nat

text \<open>
  The state of the board page the stream touches. \<open>effects\<close> holds every run of the
  task-stream effect so far, \<open>live\<close> the run whose cleanup is registered, \<open>ready\<close> the guard
  \<open>isSignedIn && boardId && board\<close>.
\<close>

record board_page =
  tasks :: "jsobject list"
  comments :: "jsobject list"
  selectedTask :: "jsobject option"
  ready :: bool
  effects :: "subscription list"
  live :: "nat option"

definition board_init :: board_page where
  "board_init =
     \<lparr>tasks = [], comments = [], selectedTask = None, ready = True, effects = [], live = None\<rparr>"

text \<open>The updater passed to \<open>setComments\<close>; \<open>selected\<close> is the closure's \<open>selectedTask\<close>.\<close>

definition comment_updater ::
  "jsobject option \<Rightarrow> jsobject option \<Rightarrow> jsobject list \<Rightarrow> jsobject list" where
  "comment_updater selected c prev =
     (if opt_field selected ''id'' \<noteq> opt_field c ''task_id'' then prev
      else if list_ex (\<lambda>item. item ''id'' = opt_field c ''id'') prev then prev
      else (case c of None \<Rightarrow> prev | Some new \<Rightarrow> prev @ [new]))"

text \<open>The updater passed to \<open>setTasks\<close>; the object spread \<open>{...old, ...new}\<close> is \<open>old ++ new\<close>.\<close>

definition task_updater :: "jsobject \<Rightarrow> jsobject list \<Rightarrow> jsobject list" where
  "task_updater t prev =
     (case findIndex (\<lambda>item. item ''id'' = t ''id'') prev of
        None \<Rightarrow> t # prev
      | Some index \<Rightarrow> prev[index := (prev ! index) ++ t])"

text \<open>The branch on a parsed payload.\<close>

definition apply_payload :: "jsobject option \<Rightarrow> payload \<Rightarrow> board_page \<Rightarrow> board_page" where
  "apply_payload selected p st =
     (if truthy (opt_field (comment p) ''task_id'') \<and> ptype p = Some ''task.comment''
      then st\<lparr>comments := comment_updater selected (comment p) (comments st)\<rparr>
      else (case task p of
              None \<Rightarrow> st
            | Some t \<Rightarrow> st\<lparr>tasks := task_updater t (tasks st)\<rparr>))"

text \<open>
  What the loop does with a decoded frame. \<open>json\<close> stands for \<open>JSON.parse\<close> followed by the
  reads of the payload's fields: \<open>None\<close> when that throws, which the \<open>catch\<close> ignores.
\<close>

definition on_frame ::
  "(string \<Rightarrow> payload option) \<Rightarrow> jsobject option \<Rightarrow> frame \<Rightarrow> board_page \<Rightarrow> board_page" where
  "on_frame json selected f st =
     (if eventType f = ''task'' \<and> data f \<noteq> []
      then (case json (data f) of None \<Rightarrow> st | Some p \<Rightarrow> apply_payload selected p st)
      else st)"

section \<open>Task stream: the cursor (\<open>latestTaskTimestamp\<close>)\<close>

text \<open>
  \<open>getTime\<close> stands for \<open>new Date(value).getTime()\<close> (\<open>None\<close> for \<open>NaN\<close>) and \<open>toISOString\<close> for
  \<open>new Date(time).toISOString()\<close>; both belong to the JavaScript runtime.
\<close>

text \<open>The value \<open>task.updated_at ?? task.created_at\<close>.\<close>

definition timestamp_value :: "jsobject \<Rightarrow> jsval option" where
  "timestamp_value t =
     (case t ''updated_at'' of
        None \<Rightarrow> t ''created_at''
      | Some JNull \<Rightarrow> t ''created_at''
      | Some (JStr s) \<Rightarrow> Some (JStr s))"

text \<open>The time the loop body reads from a task: \<open>None\<close> when it returns early or reads \<open>NaN\<close>.\<close>

definition task_time :: "(string \<Rightarrow> int option) \<Rightarrow> jsobject \<Rightarrow> int option" where
  "task_time getTime t =
     (case timestamp_value t of
        Some (JStr s) \<Rightarrow> (if s = [] then None else getTime s)
      | _ \<Rightarrow> None)"

text \<open>The body of \<open>items.forEach\<close>, on the running \<open>latestTime\<close>.\<close>

definition latest_step :: "(string \<Rightarrow> int option) \<Rightarrow> int \<Rightarrow> jsobject \<Rightarrow> int" where
  "latest_step getTime latestTime t =
     (case task_time getTime t of
        None \<Rightarrow> latestTime
      | Some time \<Rightarrow> if time > latestTime then time else latestTime)"

definition latestTaskTimestamp ::
  "(string \<Rightarrow> int option) \<Rightarrow> (int \<Rightarrow> string) \<Rightarrow> jsobject list \<Rightarrow> string option" where
  "latestTaskTimestamp getTime toISOString items =
     (let latestTime = foldl (latest_step getTime) 0 items
      in if latestTime \<noteq> 0 then Some (toISOString latestTime) else None)"

text \<open>A runtime that knows three dates, and three tasks: one without \<open>updated_at\<close>, one with
  both fields, one with a text that is no date.\<close>

definition demo_getTime :: "string \<Rightarrow> int option" where
  "demo_getTime s =
     (if s = ''2024-01-02T00:00:00.000Z'' then Some 1704153600000
      else if s = ''2024-01-01T00:00:00.000Z'' then Some 1704067200000
      else if s = ''1970-01-01T00:00:00.000Z'' then Some 0
      else None)"

definition demo_toISOString :: "int \<Rightarrow> string" where
  "demo_toISOString n =
     (if n = 1704153600000 then ''2024-01-02T00:00:00.000Z''
      else if n = 1704067200000 then ''2024-01-01T00:00:00.000Z''
      else ''1970-01-01T00:00:00.000Z'')"

definition demo_tasks :: "jsobject list" where
  "demo_tasks =
     [[''id'' \<mapsto> JStr ''T1'', ''created_at'' \<mapsto> JStr ''2024-01-01T00:00:00.000Z'',
       ''updated_at'' \<mapsto> JNull],
      [''id'' \<mapsto> JStr ''T2'', ''created_at'' \<mapsto> JStr ''2024-01-01T00:00:00.000Z'',
       ''updated_at'' \<mapsto> JStr ''2024-01-02T00:00:00.000Z''],
      [''id'' \<mapsto> JStr ''T3'', ''updated_at'' \<mapsto> JStr ''not a date'']]"

section \<open>Task stream: the life of a subscription\<close>

text \<open>
  \<open>connect()\<close> up to its call of \<open>fetch\<close>; \<open>tok\<close> says whether \<open>getToken()\<close> gave a token.
\<close>

definition stream_connect :: "bool \<Rightarrow> subscription \<Rightarrow> subscription" where
  "stream_connect tok s =
     (if \<not> tok \<or> isCancelled s then s else s\<lparr>fetches := Suc (fetches s)\<rparr>)"

text \<open>The \<open>catch\<close> of \<open>connect\<close>: anything thrown inside the \<open>try\<close> ends here.\<close>

definition stream_catch :: "subscription \<Rightarrow> subscription" where
  "stream_catch s =
     (if \<not> isCancelled s then s\<lparr>retry_timers := Suc (retry_timers s)\<rparr> else s)"

text \<open>A pending \<open>setTimeout(connect, 3000)\<close> fires.\<close>

definition stream_timer :: "bool \<Rightarrow> subscription \<Rightarrow> subscription" where
  "stream_timer tok s =
     (if retry_timers s = 0 then s
      else stream_connect tok (s\<lparr>retry_timers := retry_timers s - 1\<rparr>))"

text \<open>The cleanup the effect returns.\<close>

definition stream_cleanup :: "subscription \<Rightarrow> subscription" where
  "stream_cleanup s = s\<lparr>isCancelled := True, aborted := True\<rparr>"

datatype stream_event = Thrown | TimerFires bool | Cleanup

fun stream_step :: "subscription \<Rightarrow> stream_event \<Rightarrow> subscription" where
  "stream_step s Thrown = stream_catch s"
| "stream_step s (TimerFires tok) = stream_timer tok s"
| "stream_step s Cleanup = stream_cleanup s"

text \<open>The effect body, run after a render whose dependencies changed.\<close>

definition run_effect :: "bool \<Rightarrow> board_page \<Rightarrow> board_page" where
  "run_effect tok st =
     (if \<not> ready st then st
      else st\<lparr>effects := effects st @
                 [stream_connect tok
                    \<lparr>isCancelled = False, aborted = False,
                     closure_selectedTask = selectedTask st, fetches = 0, retry_timers = 0\<rparr>],
              live := Some (length (effects st))\<rparr>)"

definition run_cleanup :: "board_page \<Rightarrow> board_page" where
  "run_cleanup st =
     (case live st of
        None \<Rightarrow> st
      | Some k \<Rightarrow> st\<lparr>effects := (effects st)[k := stream_cleanup (effects st ! k)], live := None\<rparr>)"

text \<open>
  \<open>setSelectedTask(new)\<close> and the render that follows. \<open>deps_selected\<close> says whether the
  effect's dependency array lists \<open>selectedTask?.id\<close>: it does in the page of
  \<open>part_000\<close> and does not in the page of \<open>part_001\<close>. The other dependencies do not
  change with the selection.
\<close>

definition setSelectedTask :: "bool \<Rightarrow> bool \<Rightarrow> jsobject option \<Rightarrow> board_page \<Rightarrow> board_page" where
  "setSelectedTask deps_selected tok new st =
     (if deps_selected \<and> opt_field (selectedTask st) ''id'' \<noteq> opt_field new ''id''
      then run_effect tok (run_cleanup (st\<lparr>selectedTask := new\<rparr>))
      else st\<lparr>selectedTask := new\<rparr>)"

text \<open>A payload decoded on the connection of effect run \<open>k\<close>.\<close>

definition stream_payload :: "nat \<Rightarrow> payload \<Rightarrow> board_page \<Rightarrow> board_page" where
  "stream_payload k p st =
     (if k < length (effects st) \<and> \<not> isCancelled (effects st ! k)
      then apply_payload (closure_selectedTask (effects st ! k)) p st
      else st)"

section \<open>Chat: state, inbound frames, sending\<close>

datatype Role = User | Assistant

record ChatMessage =
  role :: Role
  content :: string
  timestamp :: string

datatype WsStatus = Connecting | Connected | Disconnected | Errored

datatype ReadyState = CONNECTING | OPEN | CLOSING | CLOSED

text \<open>The outbound frame \<open>JSON.stringify({ type: "send", content })\<close>.\<close>

datatype out_frame = SendFrame string

text \<open>
  A \<open>WebSocket\<close> that \<open>connect\<close> has constructed: its ready state, what was sent on it, and
  the value of \<open>open\<close> that its handlers see (they are closures of the \<open>connect\<close> that
  made it).
\<close>

record websocket =
  readyState :: ReadyState
  sent :: "out_frame list"
  closure_open :: bool

text \<open>A timer set by \<open>onclose\<close>, with the \<open>open\<close> its callback sees.\<close>

record timer =
  pending :: bool
  timer_open :: bool

text \<open>
  The component's state and refs. \<open>sockets\<close> and \<open>timers\<close> hold every socket and timer made
  so far, named by their index; \<open>token\<close> says whether \<open>getLocalAuthToken()\<close> gives a token.
\<close>

record chat =
  messages :: "ChatMessage list"
  input :: string
  streaming :: string
  isThinking :: bool
  wsStatus :: WsStatus
  panel_open :: bool
  token :: bool
  sockets :: "websocket list"
  wsRef :: "nat option"
  timers :: "timer list"
  reconnectTimer :: "nat option"

definition chat_init :: chat where
  "chat_init =
     \<lparr>messages = [], input = [], streaming = [], isThinking = False,
      wsStatus = Disconnected, panel_open = False, token = True, sockets = [],
      wsRef = None, timers = [], reconnectTimer = None\<rparr>"

text \<open>\<open>finalContent || prevStreaming || "..."\<close>.\<close>

definition final_content :: "jsval option \<Rightarrow> string \<Rightarrow> string" where
  "final_content finalContent prevStreaming =
     (if truthy finalContent then js_string finalContent
      else if prevStreaming \<noteq> [] then prevStreaming
      else ''...'')"

text \<open>
  \<open>ws.onmessage\<close> on a parsed message; \<open>now\<close> is \<open>new Date().toISOString()\<close> at that moment.
\<close>

definition onmessage :: "string \<Rightarrow> jsobject \<Rightarrow> chat \<Rightarrow> chat" where
  "onmessage now msg st =
     (if msg ''type'' = Some (JStr ''connected'') then st\<lparr>wsStatus := Connected\<rparr>
      else if msg ''type'' = Some (JStr ''delta'') then
        st\<lparr>isThinking := False, streaming := streaming st @ js_string (msg ''content'')\<rparr>
      else if msg ''type'' = Some (JStr ''final'') then
        st\<lparr>isThinking := False,
           messages := messages st @
             [\<lparr>role = Assistant,
               content = final_content (msg ''content'') (streaming st),
               timestamp = now\<rparr>],
           streaming := []\<rparr>
      else if msg ''type'' = Some (JStr ''status'') then
        (if msg ''status'' = Some (JStr ''thinking'') then st\<lparr>isThinking := True\<rparr>
         else if msg ''status'' = Some (JStr ''idle'') then st\<lparr>isThinking := False\<rparr>
         else st)
      else if msg ''type'' = Some (JStr ''error'') then
        st\<lparr>isThinking := False, streaming := [],
           messages := messages st @
             [\<lparr>role = Assistant,
               content = ''Error: '' @
                 (case msg ''message'' of
                    None \<Rightarrow> ''Unknown error''
                  | Some JNull \<Rightarrow> ''Unknown error''
                  | Some (JStr m) \<Rightarrow> m),
               timestamp = now\<rparr>]\<rparr>
      else st)"

text \<open>The messages the socket delivers, in order, each with the time it is handled.\<close>

definition receive :: "(string \<times> jsobject) list \<Rightarrow> chat \<Rightarrow> chat" where
  "receive frames st = foldl (\<lambda>s (now, msg). onmessage now msg s) st frames"

text \<open>The frames of the protocol, as the parsed objects \<open>onmessage\<close> receives.\<close>

definition delta_frame :: "string \<Rightarrow> jsobject" where
  "delta_frame text = [''type'' \<mapsto> JStr ''delta'', ''content'' \<mapsto> JStr text]"

definition final_frame :: "string \<Rightarrow> jsobject" where
  "final_frame text = [''type'' \<mapsto> JStr ''final'', ''content'' \<mapsto> JStr text]"

text \<open>\<open>sendMessage\<close>; \<open>now\<close> is \<open>new Date().toISOString()\<close> at that moment.\<close>

definition sendMessage :: "string \<Rightarrow> chat \<Rightarrow> chat" where
  "sendMessage now st =
     (let text = trim (input st) in
      case wsRef st of
        None \<Rightarrow> st
      | Some ws \<Rightarrow>
          if text = [] \<or> readyState (sockets st ! ws) \<noteq> OPEN then st
          else st\<lparr>messages := messages st @
                     [\<lparr>role = User, content = text, timestamp = now\<rparr>],
                  input := [],
                  streaming := [],
                  isThinking := True,
                  sockets := (sockets st)
                     [ws := (sockets st ! ws)\<lparr>sent := sent (sockets st ! ws) @ [SendFrame text]\<rparr>]\<rparr>)"

section \<open>Chat: the life of the connection\<close>

text \<open>\<open>ws.close()\<close>: the closing handshake starts; the close event comes later.\<close>

definition ws_close :: "websocket \<Rightarrow> websocket" where
  "ws_close w = (if readyState w = CLOSED then w else w\<lparr>readyState := CLOSING\<rparr>)"

text \<open>\<open>connect\<close>, called by a closure that sees \<open>open = cap\<close>.\<close>

definition connect :: "bool \<Rightarrow> chat \<Rightarrow> chat" where
  "connect cap st =
     (if \<not> token st then st
      else
        let st1 = (case wsRef st of
                     None \<Rightarrow> st
                   | Some ws \<Rightarrow> st\<lparr>sockets := (sockets st)[ws := ws_close (sockets st ! ws)]\<rparr>)
        in st1\<lparr>wsStatus := Connecting,
               sockets := sockets st1 @ [\<lparr>readyState = CONNECTING, sent = [], closure_open = cap\<rparr>],
               wsRef := Some (length (sockets st1))\<rparr>)"

text \<open>The socket's connection is established; \<open>ws.onopen\<close> does nothing.\<close>

definition open_event :: "nat \<Rightarrow> chat \<Rightarrow> chat" where
  "open_event ws st =
     (if ws < length (sockets st) \<and> readyState (sockets st ! ws) = CONNECTING
      then st\<lparr>sockets := (sockets st)[ws := (sockets st ! ws)\<lparr>readyState := OPEN\<rparr>]\<rparr>
      else st)"

text \<open>\<open>ws.onclose\<close> of socket \<open>ws\<close>.\<close>

definition onclose :: "nat \<Rightarrow> chat \<Rightarrow> chat" where
  "onclose ws st =
     st\<lparr>wsStatus := Disconnected,
        wsRef := None,
        timers := timers st @ [\<lparr>pending = True, timer_open = closure_open (sockets st ! ws)\<rparr>],
        reconnectTimer := Some (length (timers st))\<rparr>"

text \<open>The close event of socket \<open>ws\<close>: the socket is closed and its handler runs.\<close>

definition close_event :: "nat \<Rightarrow> chat \<Rightarrow> chat" where
  "close_event ws st =
     (if ws < length (sockets st) \<and> readyState (sockets st ! ws) \<noteq> CLOSED
      then onclose ws (st\<lparr>sockets := (sockets st)[ws := (sockets st ! ws)\<lparr>readyState := CLOSED\<rparr>]\<rparr>)
      else st)"

text \<open>\<open>ws.onerror\<close>.\<close>

definition onerror :: "chat \<Rightarrow> chat" where
  "onerror st = st\<lparr>wsStatus := Errored\<rparr>"

text \<open>Timer \<open>t\<close> fires after its delay: \<open>if (open) connect()\<close>.\<close>

definition timer_fire :: "nat \<Rightarrow> chat \<Rightarrow> chat" where
  "timer_fire t st =
     (if t < length (timers st) \<and> pending (timers st ! t)
      then
        let st1 = st\<lparr>timers := (timers st)[t := (timers st ! t)\<lparr>pending := False\<rparr>]\<rparr>
        in if timer_open (timers st ! t) then connect (timer_open (timers st ! t)) st1 else st1
      else st)"

text \<open>The cleanup of the effect on \<open>[open]\<close>.\<close>

definition effect_cleanup :: "chat \<Rightarrow> chat" where
  "effect_cleanup st =
     (let st1 = (case reconnectTimer st of
                   None \<Rightarrow> st
                 | Some t \<Rightarrow> st\<lparr>timers := (timers st)[t := (timers st ! t)\<lparr>pending := False\<rparr>]\<rparr>)
      in case wsRef st1 of
           None \<Rightarrow> st1
         | Some ws \<Rightarrow> st1\<lparr>sockets := (sockets st1)[ws := ws_close (sockets st1 ! ws)],
                          wsRef := None\<rparr>)"

text \<open>
  \<open>setOpen(b)\<close> and the render that follows: when \<open>open\<close> changed, the cleanup of the last
  run of the effect, then the effect, whose \<open>connect\<close> was made in this render and sees
  \<open>open = b\<close>.
\<close>

definition setOpen :: "bool \<Rightarrow> chat \<Rightarrow> chat" where
  "setOpen b st =
     (if b = panel_open st then st
      else
        let st1 = effect_cleanup (st\<lparr>panel_open := b\<rparr>)
        in if b then connect b st1 else st1)"

text \<open>
  The chat after the panel was opened, the socket was established and the service's
  \<open>connected\<close> message was handled.
\<close>

definition chat_connected :: chat where
  "chat_connected =
     onmessage ''10:00:00'' [''type'' \<mapsto> JStr ''connected''] (open_event 0 (setOpen True chat_init))"

section \<open>The frame decoder does not depend on the chunking\<close>

subsection \<open>Replacing line endings\<close>

lemma replace_crlf_Cons:
  "replace_crlf (x # xs) = (if x = CR \<and> starts_LF xs then replace_crlf xs else x # replace_crlf xs)"
proof (cases xs)
  case Nil
  then show ?thesis by simp
next
  case (Cons y ys)
  then show ?thesis by (cases ys) auto
qed

lemma replace_crlf_Nil_iff: "(replace_crlf xs = []) = (xs = [])"
  by (induction xs rule: replace_crlf.induct) auto

lemma starts_LF_replace:
  "starts_LF (replace_crlf xs) = (starts_LF xs \<or> prefix [CR, LF] xs)"
  by (induction xs rule: replace_crlf.induct) auto

lemma starts_LF_append: "starts_LF (xs @ ys) = (if xs = [] then starts_LF ys else starts_LF xs)"
  by (cases xs) auto

lemma indexOf_None_Cons: "indexOf (x # xs) n = None \<Longrightarrow> indexOf xs n = None \<and> \<not> prefix n (x # xs)"
  by (auto split: if_splits)

lemma replace_replace_append:
  "indexOf (a @ c) [CR, CR, LF] = None \<Longrightarrow> replace_crlf (replace_crlf a @ c) = replace_crlf (a @ c)"
proof (induction a)
  case Nil
  then show ?case by simp
next
  case (Cons x xs)
  from Cons.prems have tl: "indexOf (xs @ c) [CR, CR, LF] = None"
    and hd: "\<not> prefix [CR, CR, LF] (x # xs @ c)"
    using indexOf_None_Cons [of x "xs @ c"] by auto
  note IH = Cons.IH [OF tl]
  show ?case
  proof (cases "x = CR \<and> starts_LF (xs @ c)")
    case True
    show ?thesis
    proof (cases "xs = []")
      case True
      with \<open>x = CR \<and> starts_LF (xs @ c)\<close> show ?thesis
        by (simp add: replace_crlf_Cons)
    next
      case False
      with True have "starts_LF xs" by (simp add: starts_LF_append)
      with True IH show ?thesis by (simp add: replace_crlf_Cons)
    qed
  next
    case False
    have nl: "\<not> (x = CR \<and> starts_LF xs)"
      using False by (cases xs) auto
    have "\<not> (x = CR \<and> starts_LF (replace_crlf xs @ c))"
    proof
      assume h: "x = CR \<and> starts_LF (replace_crlf xs @ c)"
      show False
      proof (cases "xs = []")
        case True
        with h False show False by simp
      next
        case False
        then have "replace_crlf xs \<noteq> []" by (simp add: replace_crlf_Nil_iff)
        with h have "starts_LF (replace_crlf xs)" by (simp add: starts_LF_append)
        then have "starts_LF xs \<or> prefix [CR, LF] xs" by (simp add: starts_LF_replace)
        with nl h have "prefix [CR, LF] xs" by auto
        with h hd show False by (auto simp: prefix_def)
      qed
    qed
    with nl False IH show ?thesis by (simp add: replace_crlf_Cons)
  qed
qed


subsection \<open>Cutting frames\<close>

declare drain.simps [simp del]

lemma drain_None: "indexOf b [LF, LF] = None \<Longrightarrow> drain b = ([], b)"
  by (subst drain.simps) simp

lemma drain_Some:
  "indexOf b [LF, LF] = Some i \<Longrightarrow>
   drain b = (parse_frame (take i b) # fst (drain (drop (i + 2) b)), snd (drain (drop (i + 2) b)))"
  by (subst drain.simps) (simp add: case_prod_unfold Let_def)

lemma indexOf_empty_needle: "indexOf s [] = Some 0"
  by (cases s) auto

lemma indexOf_split:
  "indexOf s n = Some i \<Longrightarrow> s = take i s @ n @ drop (i + length n) s"
proof (induction s arbitrary: i)
  case Nil
  then show ?case by (auto split: if_splits)
next
  case (Cons c cs)
  show ?case
  proof (cases "prefix n (c # cs)")
    case True
    with Cons.prems have "i = 0" by simp
    with True show ?thesis by (auto simp: prefix_def)
  next
    case False
    with Cons.prems obtain j where j: "i = Suc j" "indexOf cs n = Some j" by auto
    from Cons.IH [OF j(2)] j(1) show ?thesis by simp
  qed
qed

lemma indexOf_take:
  "indexOf s n = Some i \<Longrightarrow> take (i + length n) s = take i s @ n"
proof (induction s arbitrary: i)
  case Nil
  then show ?case by (auto split: if_splits)
next
  case (Cons c cs)
  show ?case
  proof (cases "prefix n (c # cs)")
    case True
    with Cons.prems have "i = 0" by simp
    with True show ?thesis by (auto simp: prefix_def)
  next
    case False
    with Cons.prems obtain j where j: "i = Suc j" "indexOf cs n = Some j" by auto
    from Cons.IH [OF j(2)] j(1) show ?thesis by simp
  qed
qed

lemma indexOf_prefix_stable:
  "indexOf s n = Some i \<Longrightarrow> indexOf (take (i + length n) s @ y) n = Some i"
proof (induction s arbitrary: i)
  case Nil
  then show ?case by (auto split: if_splits simp: indexOf_empty_needle)
next
  case (Cons c cs)
  show ?case
  proof (cases "prefix n (c # cs)")
    case True
    with Cons.prems have i: "i = 0" by simp
    from True have "take (length n) (c # cs) = n" by (auto simp: prefix_def)
    then have "prefix n (take (i + length n) (c # cs) @ y)" using i by (simp add: prefix_def)
    then have "indexOf (take (i + length n) (c # cs) @ y) n = Some 0"
      by (cases "take (i + length n) (c # cs) @ y") auto
    with i show ?thesis by simp
  next
    case False
    with Cons.prems obtain j where j: "i = Suc j" "indexOf cs n = Some j" by auto
    from indexOf_bound [OF j(2)] have len: "j + length n \<le> length cs" .
    have "\<not> prefix n (c # take (j + length n) cs @ y)"
    proof
      assume p: "prefix n (c # take (j + length n) cs @ y)"
      have "length n \<le> length (c # take (j + length n) cs)" using len by simp
      with p have "prefix n (c # take (j + length n) cs)"
        by (metis append_Cons prefix_length_prefix prefixI)
      moreover have "prefix (c # take (j + length n) cs) (c # cs)"
        by (simp add: take_is_prefix)
      ultimately have "prefix n (c # cs)" by (rule prefix_order.trans)
      with False show False by simp
    qed
    with Cons.IH [OF j(2)] j(1) show ?thesis by simp
  qed
qed

lemma indexOf_None_append: "indexOf (s @ t) n = None \<Longrightarrow> indexOf s n = None"
proof (induction s)
  case Nil
  then show ?case by (cases "n = []") (auto simp: indexOf_empty_needle)
next
  case (Cons c cs)
  from Cons.prems have np: "\<not> prefix n (c # cs @ t)" and tl: "indexOf (cs @ t) n = None"
    by (auto split: if_splits)
  have "\<not> prefix n (c # cs)"
    using np by (metis append_Cons prefix_order.trans prefixI)
  with Cons.IH [OF tl] show ?case by simp
qed

lemma crlf_free_Cons: "crlf_free (x # ys) = (\<not> (x = CR \<and> starts_LF ys) \<and> crlf_free ys)"
  by (cases ys) auto

lemma crlf_free_replace:
  "indexOf a [CR, CR, LF] = None \<Longrightarrow> crlf_free (replace_crlf a)"
proof (induction a)
  case Nil
  then show ?case by simp
next
  case (Cons x xs)
  from Cons.prems have tl: "indexOf xs [CR, CR, LF] = None"
    and hd: "\<not> prefix [CR, CR, LF] (x # xs)"
    using indexOf_None_Cons [of x xs] by auto
  show ?case
  proof (cases "x = CR \<and> starts_LF xs")
    case True
    with Cons.IH [OF tl] show ?thesis by (simp add: replace_crlf_Cons)
  next
    case False
    have "\<not> (x = CR \<and> starts_LF (replace_crlf xs))"
      using False hd by (auto simp: starts_LF_replace prefix_def)
    with False Cons.IH [OF tl] show ?thesis
      by (simp add: replace_crlf_Cons crlf_free_Cons)
  qed
qed

lemma crlf_free_append_left: "crlf_free (p @ q) \<Longrightarrow> crlf_free p"
  by (induction p) (auto simp: crlf_free_Cons starts_LF_append split: if_splits)

lemma crlf_free_append_right: "crlf_free (p @ q) \<Longrightarrow> crlf_free q"
  by (induction p) (auto simp: crlf_free_Cons)

lemma replace_crlf_free_append:
  "crlf_free p \<Longrightarrow> p = [] \<or> last p \<noteq> CR \<Longrightarrow> replace_crlf (p @ y) = p @ replace_crlf y"
proof (induction p)
  case Nil
  then show ?case by simp
next
  case (Cons x xs)
  from Cons.prems have free: "crlf_free xs" and nl: "\<not> (x = CR \<and> starts_LF xs)"
    by (auto simp: crlf_free_Cons)
  from Cons.prems have "xs = [] \<or> last xs \<noteq> CR" by (auto split: if_splits)
  note IH = Cons.IH [OF free this]
  have "\<not> (x = CR \<and> starts_LF (xs @ y))"
    using nl Cons.prems by (auto simp: starts_LF_append split: if_splits)
  with IH show ?case by (simp add: replace_crlf_Cons)
qed

lemma drain_replace_append:
  "crlf_free u \<Longrightarrow>
   drain (replace_crlf (u @ c)) =
     (fst (drain u) @ fst (drain (replace_crlf (snd (drain u) @ c))),
      snd (drain (replace_crlf (snd (drain u) @ c))))"
proof (induction u rule: drain.induct)
  case (1 u)
  show ?case
  proof (cases "indexOf u [LF, LF]")
    case None
    then show ?thesis by (simp add: drain_None)
  next
    case (Some i)
    define p where "p = take (i + 2) u"
    define d where "d = drop (i + 2) u"
    from indexOf_bound [OF Some] have len: "i + 2 \<le> length u" by simp
    have pd: "u = p @ d" by (simp add: p_def d_def)
    have p: "p = take i u @ [LF, LF]"
      using indexOf_take [OF Some] by (simp add: p_def)
    from "1.prems" pd have free: "crlf_free (p @ d)" by simp
    have "crlf_free p" by (rule crlf_free_append_left [OF free])
    have "crlf_free d" by (rule crlf_free_append_right [OF free])
    have "last p \<noteq> CR" by (simp add: p)
    have rep: "replace_crlf (u @ c) = p @ replace_crlf (d @ c)"
      using replace_crlf_free_append [OF \<open>crlf_free p\<close>, of "d @ c"] \<open>last p \<noteq> CR\<close> pd by simp
    have idx: "indexOf (p @ replace_crlf (d @ c)) [LF, LF] = Some i"
      using indexOf_prefix_stable [OF Some, of "replace_crlf (d @ c)"] by (simp add: p_def)
    have lp: "length p = i + 2" using len by (simp add: p_def)
    have tk: "take i (p @ replace_crlf (d @ c)) = take i u" using len by (simp add: p_def)
    have dr: "drop (i + 2) (p @ replace_crlf (d @ c)) = replace_crlf (d @ c)" using lp by simp
    have IH: "drain (replace_crlf (d @ c)) =
       (fst (drain d) @ fst (drain (replace_crlf (snd (drain d) @ c))),
        snd (drain (replace_crlf (snd (drain d) @ c))))"
      using "1.IH" [OF Some refl refl] \<open>crlf_free d\<close> by (simp add: d_def)
    show ?thesis
      unfolding rep drain_Some [OF idx] tk dr drain_Some [OF Some]
      using IH by (simp add: d_def)
  qed
qed

subsection \<open>The read loop\<close>

lemma read_loop_invariant:
  "indexOf (a @ concat chunks) [CR, CR, LF] = None \<Longrightarrow>
   drain (replace_crlf a) = (fs0, b) \<Longrightarrow>
   drain (replace_crlf (a @ concat chunks)) =
     (fs0 @ fst (read_loop b chunks), snd (read_loop b chunks))"
proof (induction chunks arbitrary: a fs0 b)
  case Nil
  then show ?case by simp
next
  case (Cons c cs)
  from Cons.prems(1) have ok': "indexOf ((a @ c) @ concat cs) [CR, CR, LF] = None" by simp
  from indexOf_None_append [OF ok'] have okac: "indexOf (a @ c) [CR, CR, LF] = None" .
  from indexOf_None_append [OF okac] have oka: "indexOf a [CR, CR, LF] = None" .
  have "drain (replace_crlf (a @ c)) = drain (replace_crlf (replace_crlf a @ c))"
    by (simp add: replace_replace_append [OF okac])
  also have "\<dots> = (fs0 @ fst (read_chunk b c), snd (read_chunk b c))"
    using drain_replace_append [OF crlf_free_replace [OF oka], of c] Cons.prems(2)
    by (simp add: read_chunk_def)
  finally have step: "drain (replace_crlf (a @ c)) = (fs0 @ fst (read_chunk b c), snd (read_chunk b c))" .
  from Cons.IH [OF ok' step] show ?case
    by (simp add: case_prod_unfold Let_def)
qed

lemma drain_reconstruct:
  "\<exists>raws. fst (drain b) = map parse_frame raws \<and>
          b = concat (map (\<lambda>r. r @ [LF, LF]) raws) @ snd (drain b)"
proof (induction b rule: drain.induct)
  case (1 b)
  show ?case
  proof (cases "indexOf b [LF, LF]")
    case None
    then show ?thesis by (simp add: drain_None)
  next
    case (Some i)
    from "1.IH" [OF Some refl refl] obtain raws where
      r: "fst (drain (drop (i + 2) b)) = map parse_frame raws"
         "drop (i + 2) b = concat (map (\<lambda>r. r @ [LF, LF]) raws) @ snd (drain (drop (i + 2) b))"
      by auto
    from indexOf_split [OF Some] have b: "b = take i b @ [LF, LF] @ drop (i + 2) b" by simp
    have "fst (drain b) = map parse_frame (take i b # raws)"
      using r(1) by (simp add: drain_Some [OF Some])
    moreover have "b = concat (map (\<lambda>r. r @ [LF, LF]) (take i b # raws)) @ snd (drain b)"
      using r(2) b by (simp add: drain_Some [OF Some])
    ultimately show ?thesis by blast
  qed
qed

lemma drain_rest_no_blank: "indexOf (snd (drain b)) [LF, LF] = None"
proof (induction b rule: drain.induct)
  case (1 b)
  show ?case
  proof (cases "indexOf b [LF, LF]")
    case None
    then show ?thesis by (simp add: drain_None)
  next
    case (Some i)
    from "1.IH" [OF Some refl refl] show ?thesis by (simp add: drain_Some [OF Some])
  qed
qed

lemma line_endings_ok_prefix: "line_endings_ok (s @ t) \<Longrightarrow> line_endings_ok s"
  unfolding line_endings_ok_def by (rule indexOf_None_append)

lemma cr_before_lf_only_ok: "cr_before_lf_only s \<Longrightarrow> line_endings_ok s"
  unfolding line_endings_ok_def
  by (induction s rule: cr_before_lf_only.induct) auto

text \<open>
  Claim C1. Let the text of a stream be cut into chunks in any way (inside a field name,
  inside a value, between the two characters of a line ending, at a blank line), its
  line endings being \<open>\n\<close> or \<open>\r\n\<close> (\<open>line_endings_ok\<close>). Reading the chunks one at a time
  gives the same frames in the same order, and leaves the same buffer, as reading the
  whole text as one chunk. Every frame given out is the parse of a piece of the text
  received that its blank line follows, the buffer holds all text after the last such
  blank line, so no partial frame is lost, and no complete frame waits in the buffer.
  Since the chunks read so far are such a text as well, this holds after every chunk.
\<close>

theorem frame_decoder_chunk_split_invariant:
  assumes "line_endings_ok (concat chunks)"
  shows "read_loop [] chunks = read_loop [] [concat chunks]
       \<and> (\<exists>raws. fst (read_loop [] chunks) = map parse_frame raws
             \<and> replace_crlf (concat chunks)
                 = concat (map (\<lambda>r. r @ [LF, LF]) raws) @ snd (read_loop [] chunks))
       \<and> indexOf (snd (read_loop [] chunks)) [LF, LF] = None"
proof -
  from assms have ok: "indexOf ([] @ concat chunks) [CR, CR, LF] = None"
    by (simp add: line_endings_ok_def)
  have d0: "drain (replace_crlf []) = ([], [])" by (simp add: drain_None)
  from read_loop_invariant [OF ok d0]
  have one: "read_loop [] chunks = drain (replace_crlf (concat chunks))" by simp
  have "read_loop [] [concat chunks] = drain (replace_crlf (concat chunks))"
    by (simp add: read_chunk_def case_prod_unfold Let_def)
  with one have "read_loop [] chunks = read_loop [] [concat chunks]" by simp
  moreover from drain_reconstruct [of "replace_crlf (concat chunks)"] one
  have "\<exists>raws. fst (read_loop [] chunks) = map parse_frame raws
             \<and> replace_crlf (concat chunks)
                 = concat (map (\<lambda>r. r @ [LF, LF]) raws) @ snd (read_loop [] chunks)"
    by simp
  moreover from drain_rest_no_blank [of "replace_crlf (concat chunks)"] one
  have "indexOf (snd (read_loop [] chunks)) [LF, LF] = None" by simp
  ultimately show ?thesis by blast
qed


theorem frame_decoder_chunk_split_witness:
  "line_endings_ok
     (concat [''ev'', ''ent: task'' @ [CR], LF # ''da'', ''ta: ab'', ''c'' @ [LF], [LF], ''data: d''])
   \<and> read_loop []
       [''ev'', ''ent: task'' @ [CR], LF # ''da'', ''ta: ab'', ''c'' @ [LF], [LF], ''data: d'']
     = ([\<lparr>eventType = ''task'', data = ''abc''\<rparr>], ''data: d'')"
proof -
  have ok: "line_endings_ok
     (concat [''ev'', ''ent: task'' @ [CR], LF # ''da'', ''ta: ab'', ''c'' @ [LF], [LF], ''data: d''])"
    by code_simp
  have one: "read_loop []
       [concat [''ev'', ''ent: task'' @ [CR], LF # ''da'', ''ta: ab'', ''c'' @ [LF], [LF], ''data: d'']]
     = ([\<lparr>eventType = ''task'', data = ''abc''\<rparr>], ''data: d'')"
    by code_simp
  from frame_decoder_chunk_split_invariant [OF ok] one ok show ?thesis by simp
qed

text \<open>
  The condition on the line endings is needed: where a carriage return stands before a
  \<open>\r\n\<close> pair, the pair is replaced when its chunk is read and the carriage return left
  over is replaced with the next chunk, which a single read does not do.
\<close>

lemma frame_decoder_stray_carriage_return:
  "read_loop [] [''data:a'' @ [CR, CR, LF, CR, CR, LF], ''data:b'' @ [LF, LF]]
     = ([\<lparr>eventType = ''message'', data = ''a''\<rparr>, \<lparr>eventType = ''message'', data = ''b''\<rparr>], [])
   \<and> read_loop [] [''data:a'' @ [CR, CR, LF, CR, CR, LF] @ ''data:b'' @ [LF, LF]]
     = ([\<lparr>eventType = ''message'', data = ''ab''\<rparr>], [])"
  by code_simp

section \<open>The update reconciler\<close>

lemma findIndex_None: "(findIndex p xs = None) = (\<not> list_ex p xs)"
  by (induction xs) auto

lemma findIndex_Some:
  "findIndex p xs = Some i \<Longrightarrow> i < length xs \<and> p (xs ! i) \<and> (\<forall>j<i. \<not> p (xs ! j))"
proof (induction xs arbitrary: i)
  case Nil
  then show ?case by simp
next
  case (Cons x xs)
  show ?case
  proof (cases "p x")
    case True
    with Cons.prems show ?thesis by simp
  next
    case False
    with Cons.prems obtain k where k: "i = Suc k" "findIndex p xs = Some k" by auto
    from Cons.IH [OF k(2)] k(1) False show ?thesis
      by (auto simp: nth_Cons split: nat.splits)
  qed
qed

lemma findIndex_ex: "list_ex p xs \<Longrightarrow> \<exists>i. findIndex p xs = Some i"
  using findIndex_None [of p xs] by (cases "findIndex p xs") auto

text \<open>
  Claim C2. A frame that is handled as a task update (it carries a task, and it is not
  a comment frame, which the branch before takes) changes the working set as follows.
  When no task has the incoming \<open>id\<close>, the incoming task becomes the new first entry and
  the entries before it follow unchanged. When a task has it, the first such entry keeps
  its place and becomes the old entity overwritten by the incoming fields: every field
  the payload carries takes the payload's value, every field it does not carry keeps
  its value; the length and all other entries stay as they were. The comments are not
  touched. Two frames for \<open>T1\<close>, with status \<open>inbox\<close> and then \<open>in_progress\<close>, leave one task
  \<open>T1\<close> with status \<open>in_progress\<close> and its title.
\<close>

theorem task_payload_upsert:
  assumes "task p = Some t"
    and "\<not> (truthy (opt_field (comment p) ''task_id'') \<and> ptype p = Some ''task.comment'')"
  shows "(if list_ex (\<lambda>item. item ''id'' = t ''id'') (tasks st)
          then \<exists>i<length (tasks st).
                 (tasks st ! i) ''id'' = t ''id''
               \<and> (\<forall>j<i. (tasks st ! j) ''id'' \<noteq> t ''id'')
               \<and> length (tasks (apply_payload selected p st)) = length (tasks st)
               \<and> (\<forall>j<length (tasks st). j \<noteq> i \<longrightarrow>
                     tasks (apply_payload selected p st) ! j = tasks st ! j)
               \<and> (\<forall>k v. t k = Some v \<longrightarrow> (tasks (apply_payload selected p st) ! i) k = Some v)
               \<and> (\<forall>k. t k = None \<longrightarrow>
                     (tasks (apply_payload selected p st) ! i) k = (tasks st ! i) k)
          else tasks (apply_payload selected p st) = t # tasks st)
       \<and> comments (apply_payload selected p st) = comments st"
proof -
  from assms have ap: "apply_payload selected p st = st\<lparr>tasks := task_updater t (tasks st)\<rparr>"
    by (auto simp: apply_payload_def)
  show ?thesis
  proof (cases "list_ex (\<lambda>item. item ''id'' = t ''id'') (tasks st)")
    case False
    then have "findIndex (\<lambda>item. item ''id'' = t ''id'') (tasks st) = None"
      by (simp add: findIndex_None)
    with False show ?thesis by (simp add: ap task_updater_def)
  next
    case True
    from findIndex_ex [OF True] obtain i where
      i: "findIndex (\<lambda>item. item ''id'' = t ''id'') (tasks st) = Some i" ..
    from findIndex_Some [OF i] have b: "i < length (tasks st)"
      and h: "(tasks st ! i) ''id'' = t ''id''"
      and f: "\<forall>j<i. (tasks st ! j) ''id'' \<noteq> t ''id''" by auto
    have upd: "tasks (apply_payload selected p st) = (tasks st)[i := (tasks st ! i) ++ t]"
      by (simp add: ap task_updater_def i)
    have "(\<forall>k v. t k = Some v \<longrightarrow> (tasks (apply_payload selected p st) ! i) k = Some v)"
      using b by (simp add: upd map_add_def)
    moreover have "(\<forall>k. t k = None \<longrightarrow>
                     (tasks (apply_payload selected p st) ! i) k = (tasks st ! i) k)"
      using b by (simp add: upd map_add_def)
    moreover have "(\<forall>j<length (tasks st). j \<noteq> i \<longrightarrow>
                     tasks (apply_payload selected p st) ! j = tasks st ! j)"
      by (simp add: upd)
    moreover have "length (tasks (apply_payload selected p st)) = length (tasks st)"
      by (simp add: upd)
    moreover have "comments (apply_payload selected p st) = comments st" by (simp add: ap)
    ultimately show ?thesis using True b h f by auto
  qed
qed

theorem task_payload_upsert_witness:
  "(let t1 = [''id'' \<mapsto> JStr ''T1'', ''title'' \<mapsto> JStr ''Write docs'', ''status'' \<mapsto> JStr ''inbox''];
        t2 = [''id'' \<mapsto> JStr ''T1'', ''status'' \<mapsto> JStr ''in_progress''];
        st1 = apply_payload None \<lparr>ptype = Some ''task.created'', task = Some t1, comment = None\<rparr> board_init;
        st2 = apply_payload None \<lparr>ptype = Some ''task.updated'', task = Some t2, comment = None\<rparr> st1
    in length (tasks st1) = 1
     \<and> length (tasks st2) = 1
     \<and> (tasks st2 ! 0) ''id'' = Some (JStr ''T1'')
     \<and> (tasks st2 ! 0) ''status'' = Some (JStr ''in_progress'')
     \<and> (tasks st2 ! 0) ''title'' = Some (JStr ''Write docs''))"
proof -
  define t1 :: jsobject where
    "t1 = [''id'' \<mapsto> JStr ''T1'', ''title'' \<mapsto> JStr ''Write docs'', ''status'' \<mapsto> JStr ''inbox'']"
  define t2 :: jsobject where "t2 = [''id'' \<mapsto> JStr ''T1'', ''status'' \<mapsto> JStr ''in_progress'']"
  define p1 where "p1 = \<lparr>ptype = Some ''task.created'', task = Some t1, comment = None\<rparr>"
  define p2 where "p2 = \<lparr>ptype = Some ''task.updated'', task = Some t2, comment = None\<rparr>"
  define st1 where "st1 = apply_payload None p1 board_init"
  have a1: "task p1 = Some t1" and a2: "task p2 = Some t2" by (simp_all add: p1_def p2_def)
  have b1: "\<not> (truthy (opt_field (comment p1) ''task_id'') \<and> ptype p1 = Some ''task.comment'')"
    and b2: "\<not> (truthy (opt_field (comment p2) ''task_id'') \<and> ptype p2 = Some ''task.comment'')"
    by (simp_all add: p1_def p2_def)
  have s1: "tasks st1 = [t1]"
    using task_payload_upsert [OF a1 b1, of board_init None]
    by (simp add: st1_def board_init_def)
  have ex: "list_ex (\<lambda>item. item ''id'' = t2 ''id'') (tasks st1)"
    by (simp add: s1 t1_def t2_def)
  from task_payload_upsert [OF a2 b2, of st1 None] ex s1
  have "length (tasks (apply_payload None p2 st1)) = 1
      \<and> (tasks (apply_payload None p2 st1) ! 0) ''id'' = Some (JStr ''T1'')
      \<and> (tasks (apply_payload None p2 st1) ! 0) ''status'' = Some (JStr ''in_progress'')
      \<and> (tasks (apply_payload None p2 st1) ! 0) ''title'' = Some (JStr ''Write docs'')"
    by (simp add: t1_def t2_def)
  with s1 show ?thesis
    by (simp add: Let_def st1_def p1_def p2_def t1_def t2_def)
qed

text \<open>
  Claim C3. A frame that is handled as a comment update (its payload has a comment with
  a non-empty \<open>task_id\<close> and the type \<open>task.comment\<close>) appends the comment to the
  collection exactly when the comment's \<open>task_id\<close> is the \<open>id\<close> of the task the closure has
  as selected and no stored comment has the comment's \<open>id\<close>. In every other case the
  whole page state, the collection included, is as before: the comment is kept nowhere.
  Applying the same frame twice is the same as applying it once, and where the frame was
  stored, exactly one stored comment has its \<open>id\<close>.
\<close>

theorem comment_payload_append:
  assumes "comment p = Some c"
    and "truthy (c ''task_id'')"
    and "ptype p = Some ''task.comment''"
  shows "apply_payload selected p st =
           (if opt_field selected ''id'' = c ''task_id''
               \<and> \<not> list_ex (\<lambda>item. item ''id'' = c ''id'') (comments st)
            then st\<lparr>comments := comments st @ [c]\<rparr>
            else st)
       \<and> apply_payload selected p (apply_payload selected p st) = apply_payload selected p st
       \<and> length (filter (\<lambda>item. item ''id'' = c ''id'')
                    (comments (apply_payload selected p (apply_payload selected p st))))
           = (if opt_field selected ''id'' = c ''task_id''
                 \<and> \<not> list_ex (\<lambda>item. item ''id'' = c ''id'') (comments st)
              then 1
              else length (filter (\<lambda>item. item ''id'' = c ''id'') (comments st)))"
proof -
  have one: "apply_payload selected p s =
           (if opt_field selected ''id'' = c ''task_id''
               \<and> \<not> list_ex (\<lambda>item. item ''id'' = c ''id'') (comments s)
            then s\<lparr>comments := comments s @ [c]\<rparr>
            else s)" for s
    using assms by (simp add: apply_payload_def comment_updater_def opt_field_def)
  have none: "\<not> list_ex (\<lambda>item. item ''id'' = c ''id'') xs \<Longrightarrow>
      filter (\<lambda>item. item ''id'' = c ''id'') xs = []" for xs :: "jsobject list"
    by (induction xs) auto
  show ?thesis
    by (auto simp: one [of st] one [of "st\<lparr>comments := comments st @ [c]\<rparr>"] none)
qed

theorem comment_payload_append_witness:
  "(let c = [''id'' \<mapsto> JStr ''c1'', ''task_id'' \<mapsto> JStr ''T1'', ''message'' \<mapsto> JStr ''hello''];
        p = \<lparr>ptype = Some ''task.comment'', task = None, comment = Some c\<rparr>;
        open_task = Some [''id'' \<mapsto> JStr ''T1''];
        other_task = Some [''id'' \<mapsto> JStr ''T2'']
    in length (comments (apply_payload open_task p (apply_payload open_task p board_init))) = 1
     \<and> comments (apply_payload other_task p board_init) = []
     \<and> comments (apply_payload None p board_init) = [])"
proof -
  define c :: jsobject where
    "c = [''id'' \<mapsto> JStr ''c1'', ''task_id'' \<mapsto> JStr ''T1'', ''message'' \<mapsto> JStr ''hello'']"
  define p where "p = \<lparr>ptype = Some ''task.comment'', task = None, comment = Some c\<rparr>"
  have a: "comment p = Some c" and b: "truthy (c ''task_id'')" and t: "ptype p = Some ''task.comment''"
    by (simp_all add: p_def c_def)
  have id1: "opt_field (Some [''id'' \<mapsto> JStr ''T1'']) ''id'' = c ''task_id''"
    and id2: "opt_field (Some [''id'' \<mapsto> JStr ''T2'']) ''id'' \<noteq> c ''task_id''"
    and id3: "opt_field None ''id'' \<noteq> c ''task_id''"
    by (simp_all add: opt_field_def c_def)
  note w = comment_payload_append [OF a b t, of "Some [''id'' \<mapsto> JStr ''T1'']" board_init]
  have e1: "apply_payload (Some [''id'' \<mapsto> JStr ''T1'']) p board_init
              = board_init\<lparr>comments := [c]\<rparr>"
    using conjunct1 [OF w] id1 by (simp add: board_init_def)
  have e2: "apply_payload (Some [''id'' \<mapsto> JStr ''T1'']) p
              (apply_payload (Some [''id'' \<mapsto> JStr ''T1'']) p board_init)
              = apply_payload (Some [''id'' \<mapsto> JStr ''T1'']) p board_init"
    by (rule conjunct1 [OF conjunct2 [OF w]])
  have "length (comments (apply_payload (Some [''id'' \<mapsto> JStr ''T1'']) p
          (apply_payload (Some [''id'' \<mapsto> JStr ''T1'']) p board_init))) = 1"
    by (simp only: e2) (simp add: e1)
  moreover have "comments (apply_payload (Some [''id'' \<mapsto> JStr ''T2'']) p board_init) = []"
    using comment_payload_append [OF a b t, of "Some [''id'' \<mapsto> JStr ''T2'']" board_init] id2
    by (simp add: board_init_def)
  moreover have "comments (apply_payload None p board_init) = []"
    using comment_payload_append [OF a b t, of None board_init] id3
    by (simp add: board_init_def)
  ultimately show ?thesis by (simp add: Let_def p_def c_def)
qed


text \<open>
  The two kinds of frame, for any payload: a payload is handled as a comment update
  when its comment has a non-empty \<open>task_id\<close> and its type is \<open>task.comment\<close>, and then its
  task, if it has one, is not looked at; any other payload is handled as a task update
  when it has a task, and its comment, if it has one, is not looked at.
\<close>

lemma apply_payload_kinds:
  "tasks (apply_payload selected p st) =
     (if truthy (opt_field (comment p) ''task_id'') \<and> ptype p = Some ''task.comment''
      then tasks st
      else (case task p of None \<Rightarrow> tasks st | Some t \<Rightarrow> task_updater t (tasks st)))
   \<and> comments (apply_payload selected p st) =
     (if truthy (opt_field (comment p) ''task_id'') \<and> ptype p = Some ''task.comment''
      then comment_updater selected (comment p) (comments st)
      else comments st)"
  by (simp add: apply_payload_def split: option.splits)

section \<open>The cursor\<close>

lemma latest_step_fold:
  "foldl (latest_step g) a items = m \<Longrightarrow>
   a \<le> m
   \<and> (m = a \<or> (\<exists>t\<in>set items. task_time g t = Some m))
   \<and> (\<forall>t\<in>set items. \<forall>n. task_time g t = Some n \<longrightarrow> n \<le> m)"
proof (induction items arbitrary: a m)
  case Nil
  then show ?case by simp
next
  case (Cons t ts)
  from Cons.prems have "foldl (latest_step g) (latest_step g a t) ts = m" by simp
  from Cons.IH [OF this]
  have 1: "latest_step g a t \<le> m"
    and 2: "m = latest_step g a t \<or> (\<exists>t\<in>set ts. task_time g t = Some m)"
    and 3: "\<forall>t\<in>set ts. \<forall>n. task_time g t = Some n \<longrightarrow> n \<le> m" by auto
  show ?case
  proof (cases "task_time g t")
    case None
    with 1 2 3 show ?thesis by (auto simp: latest_step_def)
  next
    case (Some n)
    with 1 2 3 show ?thesis by (auto simp: latest_step_def split: if_splits)
  qed
qed

lemma task_time_fields:
  "task_time g t =
     (case t ''updated_at'' of
        Some (JStr s) \<Rightarrow> if s = [] then None else g s
      | _ \<Rightarrow> (case t ''created_at'' of
                Some (JStr s) \<Rightarrow> if s = [] then None else g s
              | _ \<Rightarrow> None))"
  by (simp add: task_time_def timestamp_value_def split: option.splits jsval.splits)

text \<open>
  Claim C8, as \<open>latestTaskTimestamp\<close> has it. The time of a task is read from \<open>updated_at\<close>,
  or from \<open>created_at\<close> when \<open>updated_at\<close> is \<open>null\<close> or absent; an empty or unparseable text
  gives no time and does not stop the scan. The result is the greatest of the times that
  are greater than \<open>0\<close> (the running maximum starts at \<open>0\<close> and \<open>0\<close> is returned as none),
  given to \<open>toISOString\<close>; it is none exactly when no task has a time greater than \<open>0\<close>.
\<close>

theorem latest_cursor_positive_max:
  "latestTaskTimestamp getTime toISOString items =
     (if \<exists>t\<in>set items. \<exists>n. task_time getTime t = Some n \<and> 0 < n
      then Some (toISOString
             (Max {n. 0 < n \<and> (\<exists>t\<in>set items. task_time getTime t = Some n)}))
      else None)
   \<and> task_time getTime t =
       (case t ''updated_at'' of
          Some (JStr s) \<Rightarrow> if s = [] then None else getTime s
        | _ \<Rightarrow> (case t ''created_at'' of
                  Some (JStr s) \<Rightarrow> if s = [] then None else getTime s
                | _ \<Rightarrow> None))"
proof -
  define m where "m = foldl (latest_step getTime) 0 items"
  define P where "P = {n. 0 < n \<and> (\<exists>t\<in>set items. task_time getTime t = Some n)}"
  from latest_step_fold [OF m_def [symmetric]]
  have ge: "0 \<le> m"
    and mem: "m = 0 \<or> (\<exists>t\<in>set items. task_time getTime t = Some m)"
    and ub: "\<forall>t\<in>set items. \<forall>n. task_time getTime t = Some n \<longrightarrow> n \<le> m" by auto
  have "P \<subseteq> (\<lambda>t. the (task_time getTime t)) ` set items"
    by (force simp: P_def)
  then have fin: "finite P" by (rule finite_subset) simp
  have res: "latestTaskTimestamp getTime toISOString items =
      (if m \<noteq> 0 then Some (toISOString m) else None)"
    by (simp add: latestTaskTimestamp_def m_def Let_def)
  have main: "latestTaskTimestamp getTime toISOString items =
     (if \<exists>t\<in>set items. \<exists>n. task_time getTime t = Some n \<and> 0 < n
      then Some (toISOString (Max P)) else None)"
  proof (cases "m = 0")
    case True
    with ub have "\<not> (\<exists>t\<in>set items. \<exists>n. task_time getTime t = Some n \<and> 0 < n)" by fastforce
    with True res show ?thesis by simp
  next
    case False
    with ge mem have pos: "0 < m" and ex: "\<exists>t\<in>set items. task_time getTime t = Some m" by auto
    then have "m \<in> P" by (simp add: P_def)
    moreover have "\<And>y. y \<in> P \<Longrightarrow> y \<le> m" using ub by (auto simp: P_def)
    ultimately have "Max P = m" using fin by (intro Max_eqI) auto
    moreover from pos ex have "\<exists>t\<in>set items. \<exists>n. task_time getTime t = Some n \<and> 0 < n" by blast
    ultimately show ?thesis using False res by simp
  qed
  then show ?thesis by (simp add: P_def task_time_fields)
qed

theorem latest_cursor_positive_max_witness:
  "(\<exists>t\<in>set demo_tasks. \<exists>n. task_time demo_getTime t = Some n \<and> 0 < n)
   \<and> latestTaskTimestamp demo_getTime demo_toISOString demo_tasks
       = Some (demo_toISOString
           (Max {n. 0 < n \<and> (\<exists>t\<in>set demo_tasks. task_time demo_getTime t = Some n)}))
   \<and> latestTaskTimestamp demo_getTime demo_toISOString demo_tasks
       = Some ''2024-01-02T00:00:00.000Z''"
proof -
  have t2: "task_time demo_getTime
      [''id'' \<mapsto> JStr ''T2'', ''created_at'' \<mapsto> JStr ''2024-01-01T00:00:00.000Z'',
       ''updated_at'' \<mapsto> JStr ''2024-01-02T00:00:00.000Z''] = Some 1704153600000"
    by (simp add: task_time_def timestamp_value_def demo_getTime_def)
  have ex: "\<exists>t\<in>set demo_tasks. \<exists>n. task_time demo_getTime t = Some n \<and> 0 < n"
    unfolding demo_tasks_def using t2 by simp
  from conjunct1 [OF latest_cursor_positive_max [of demo_getTime demo_toISOString demo_tasks]] ex
  have mx: "latestTaskTimestamp demo_getTime demo_toISOString demo_tasks
       = Some (demo_toISOString
           (Max {n. 0 < n \<and> (\<exists>t\<in>set demo_tasks. task_time demo_getTime t = Some n)}))"
    by simp
  have ev: "latestTaskTimestamp demo_getTime demo_toISOString demo_tasks
       = Some ''2024-01-02T00:00:00.000Z''"
    by (simp add: latestTaskTimestamp_def latest_step_def task_time_def timestamp_value_def
        demo_getTime_def demo_toISOString_def demo_tasks_def)
  from ex mx ev show ?thesis by blast
qed

text \<open>
  Claim C8 says that the result is none only when no task has a parseable timestamp. A
  task whose timestamp parses to the time \<open>0\<close> has one, and the result is none.
\<close>

theorem latest_cursor_epoch_counterexample:
  "task_time demo_getTime [''id'' \<mapsto> JStr ''T1'', ''updated_at'' \<mapsto> JStr ''1970-01-01T00:00:00.000Z'']
     = Some 0
   \<and> latestTaskTimestamp demo_getTime demo_toISOString
       [[''id'' \<mapsto> JStr ''T1'', ''updated_at'' \<mapsto> JStr ''1970-01-01T00:00:00.000Z'']] = None"
  by (simp add: latestTaskTimestamp_def latest_step_def task_time_def timestamp_value_def
      demo_getTime_def)

section \<open>Chat: accumulating and finalizing a reply\<close>

lemma receive_Nil: "receive [] st = st"
  by (simp add: receive_def)

lemma receive_Cons: "receive ((now, msg) # frames) st = receive frames (onmessage now msg st)"
  by (simp add: receive_def)

lemma onmessage_final:
  "msg ''type'' = Some (JStr ''final'') \<Longrightarrow>
   onmessage now msg st =
     st\<lparr>isThinking := False,
        messages := messages st @
          [\<lparr>role = Assistant, content = final_content (msg ''content'') (streaming st),
            timestamp = now\<rparr>],
        streaming := []\<rparr>"
  by (simp add: onmessage_def)

lemma onmessage_delta:
  "onmessage now (delta_frame text) st =
     st\<lparr>isThinking := False, streaming := streaming st @ text\<rparr>"
  by (simp add: onmessage_def delta_frame_def js_string_def)

lemma final_content_cases:
  "final_content c buf =
     (case c of
        Some (JStr text) \<Rightarrow>
          if text \<noteq> [] then text else if buf \<noteq> [] then buf else ''...''
      | _ \<Rightarrow> if buf \<noteq> [] then buf else ''...'')"
  by (cases c rule: truthy.cases) (simp_all add: final_content_def js_string_def)

lemma receive_deltas:
  "streaming (receive (map (\<lambda>(now, text). (now, delta_frame text)) ds) st)
     = streaming st @ concat (map snd ds)
   \<and> messages (receive (map (\<lambda>(now, text). (now, delta_frame text)) ds) st) = messages st"
proof (induction ds arbitrary: st)
  case Nil
  then show ?case by (simp add: receive_Nil)
next
  case (Cons d ds)
  obtain now body where d: "d = (now, body)" by (cases d)
  from Cons.IH [of "onmessage now (delta_frame body) st"] show ?case
    by (simp add: d receive_Cons onmessage_delta)
qed

text \<open>
  Claim C4. A terminal frame appends one assistant message and empties the running
  buffer. The message's content is the frame's text when that is present and not empty,
  else the running buffer when that is not empty, else \<open>...\<close>. Delta frames append their
  texts to the running buffer in the order they arrive, with nothing between them. So
  the deltas \<open>Hel\<close> and \<open>lo\<close> on an empty buffer, followed by a terminal frame with empty
  content, give the content \<open>Hello\<close>, and a terminal frame with content \<open>Hi there\<close> gives
  \<open>Hi there\<close> after any deltas.
\<close>

theorem finalization_content:
  "(msg ''type'' = Some (JStr ''final'') \<longrightarrow>
      messages (onmessage now msg st) =
        messages st @
          [\<lparr>role = Assistant,
            content =
              (case msg ''content'' of
                 Some (JStr text) \<Rightarrow>
                   if text \<noteq> [] then text
                   else if streaming st \<noteq> [] then streaming st else ''...''
               | _ \<Rightarrow> if streaming st \<noteq> [] then streaming st else ''...''),
            timestamp = now\<rparr>]
      \<and> streaming (onmessage now msg st) = [])
   \<and> streaming (receive (map (\<lambda>(now, text). (now, delta_frame text)) ds) st)
       = streaming st @ concat (map snd ds)
   \<and> (streaming st = [] \<longrightarrow>
        last (messages (receive
          [(n1, delta_frame ''Hel''), (n2, delta_frame ''lo''), (n3, final_frame [])] st))
        = \<lparr>role = Assistant, content = ''Hello'', timestamp = n3\<rparr>)
   \<and> last (messages (onmessage now (final_frame ''Hi there'')
          (receive (map (\<lambda>(now, text). (now, delta_frame text)) ds) st)))
       = \<lparr>role = Assistant, content = ''Hi there'', timestamp = now\<rparr>"
proof -
  have a: "msg ''type'' = Some (JStr ''final'') \<longrightarrow>
      messages (onmessage now msg st) =
        messages st @
          [\<lparr>role = Assistant,
            content =
              (case msg ''content'' of
                 Some (JStr text) \<Rightarrow>
                   if text \<noteq> [] then text
                   else if streaming st \<noteq> [] then streaming st else ''...''
               | _ \<Rightarrow> if streaming st \<noteq> [] then streaming st else ''...''),
            timestamp = now\<rparr>]
      \<and> streaming (onmessage now msg st) = []"
    by (simp add: onmessage_final final_content_cases)
  have ft: "final_frame body ''type'' = Some (JStr ''final'')" for body
    by (simp add: final_frame_def)
  have c: "streaming st = [] \<longrightarrow>
        last (messages (receive
          [(n1, delta_frame ''Hel''), (n2, delta_frame ''lo''), (n3, final_frame [])] st))
        = \<lparr>role = Assistant, content = ''Hello'', timestamp = n3\<rparr>"
    by (simp add: receive_Cons receive_Nil onmessage_delta onmessage_final ft
        final_content_def final_frame_def)
  have d: "last (messages (onmessage now (final_frame ''Hi there'')
          (receive (map (\<lambda>(now, text). (now, delta_frame text)) ds) st)))
       = \<lparr>role = Assistant, content = ''Hi there'', timestamp = now\<rparr>"
    by (simp add: onmessage_final ft final_content_def final_frame_def js_string_def)
  from a receive_deltas [of ds st] c d show ?thesis by blast
qed

theorem finalization_content_witness:
  "messages (receive
      [(''10:00:01'', delta_frame ''Hel''), (''10:00:02'', delta_frame ''lo''),
       (''10:00:03'', final_frame [])] chat_init)
     = [\<lparr>role = Assistant, content = ''Hello'', timestamp = ''10:00:03''\<rparr>]
   \<and> streaming (receive
      [(''10:00:01'', delta_frame ''Hel''), (''10:00:02'', delta_frame ''lo''),
       (''10:00:03'', final_frame [])] chat_init) = []"
proof -
  define st where
    "st = receive [(''10:00:01'', delta_frame ''Hel''), (''10:00:02'', delta_frame ''lo'')] chat_init"
  have s: "streaming st = ''Hello''" and m: "messages st = []"
    by (simp_all add: st_def receive_Cons receive_Nil onmessage_delta chat_init_def)
  have ft: "final_frame [] ''type'' = Some (JStr ''final'')"
    and fc: "final_frame [] ''content'' = Some (JStr [])"
    by (simp_all add: final_frame_def)
  have r: "receive [(''10:00:01'', delta_frame ''Hel''), (''10:00:02'', delta_frame ''lo''),
       (''10:00:03'', final_frame [])] chat_init = onmessage ''10:00:03'' (final_frame []) st"
    by (simp add: st_def receive_Cons receive_Nil)
  from conjunct1 [OF finalization_content [of "final_frame []" "''10:00:03''" st]] ft
  show ?thesis by (simp add: r s m fc)
qed

text \<open>
  Claim C5 says that a second terminal frame for the same turn leaves the history as the
  first one left it. The handler has no guard for that: after the deltas \<open>Hel\<close>, \<open>lo\<close> and
  a terminal frame, a second terminal frame appends a second assistant message.
\<close>

theorem duplicate_final_counterexample:
  "messages (receive
      [(''10:00:01'', delta_frame ''Hel''), (''10:00:02'', delta_frame ''lo''),
       (''10:00:03'', final_frame []), (''10:00:04'', final_frame [])] chat_init)
     = [\<lparr>role = Assistant, content = ''Hello'', timestamp = ''10:00:03''\<rparr>,
        \<lparr>role = Assistant, content = ''...'', timestamp = ''10:00:04''\<rparr>]
   \<and> messages (receive
      [(''10:00:01'', delta_frame ''Hel''), (''10:00:02'', delta_frame ''lo''),
       (''10:00:03'', final_frame [])] chat_init)
     = [\<lparr>role = Assistant, content = ''Hello'', timestamp = ''10:00:03''\<rparr>]
   \<and> messages (receive
      [(''10:00:01'', delta_frame ''Hel''), (''10:00:02'', delta_frame ''lo''),
       (''10:00:03'', final_frame []), (''10:00:04'', final_frame [])] chat_init)
     \<noteq> messages (receive
      [(''10:00:01'', delta_frame ''Hel''), (''10:00:02'', delta_frame ''lo''),
       (''10:00:03'', final_frame [])] chat_init)"
  by (simp add: receive_Cons receive_Nil onmessage_delta onmessage_final final_frame_def
      final_content_def js_string_def chat_init_def)

text \<open>
  Claim C5, as the handler has it: every terminal frame appends exactly one assistant
  message. A terminal frame that follows another one, with no delta between them, finds
  the running buffer empty and appends a message with its own text when that is not
  empty and with \<open>...\<close> otherwise; the running buffer stays empty.
\<close>

theorem duplicate_final_appends:
  assumes "msg1 ''type'' = Some (JStr ''final'')"
    and "msg2 ''type'' = Some (JStr ''final'')"
  shows "messages (onmessage now2 msg2 (onmessage now1 msg1 st))
           = messages (onmessage now1 msg1 st) @
               [\<lparr>role = Assistant,
                 content =
                   (case msg2 ''content'' of
                      Some (JStr text) \<Rightarrow> if text \<noteq> [] then text else ''...''
                    | _ \<Rightarrow> ''...''),
                 timestamp = now2\<rparr>]
       \<and> length (messages (onmessage now2 msg2 (onmessage now1 msg1 st)))
           = length (messages st) + 2
       \<and> streaming (onmessage now2 msg2 (onmessage now1 msg1 st)) = []"
  using assms by (simp add: onmessage_final final_content_cases)

theorem duplicate_final_appends_witness:
  "messages (onmessage ''10:00:04'' (final_frame ''Hello'')
      (onmessage ''10:00:03'' (final_frame ''Hello'') chat_init))
     = [\<lparr>role = Assistant, content = ''Hello'', timestamp = ''10:00:03''\<rparr>,
        \<lparr>role = Assistant, content = ''Hello'', timestamp = ''10:00:04''\<rparr>]"
proof -
  have ft: "final_frame ''Hello'' ''type'' = Some (JStr ''final'')"
    by (simp add: final_frame_def)
  have one: "messages (onmessage ''10:00:03'' (final_frame ''Hello'') chat_init)
     = [\<lparr>role = Assistant, content = ''Hello'', timestamp = ''10:00:03''\<rparr>]"
    by (simp add: onmessage_final ft final_content_def final_frame_def js_string_def
        chat_init_def)
  from duplicate_final_appends [of "final_frame ''Hello''" "final_frame ''Hello''"
      "''10:00:04''" "''10:00:03''" chat_init, OF ft ft] one
  show ?thesis by (simp add: final_frame_def)
qed

section \<open>Chat: sending a message\<close>

lemma sendMessage_accepted:
  "trim (input st) \<noteq> [] \<Longrightarrow> wsRef st = Some ws \<Longrightarrow> readyState (sockets st ! ws) = OPEN \<Longrightarrow>
   sendMessage now st =
     st\<lparr>messages := messages st @
                 [\<lparr>role = User, content = trim (input st), timestamp = now\<rparr>],
        input := [],
        streaming := [],
        isThinking := True,
        sockets := (sockets st)
          [ws := (sockets st ! ws)\<lparr>sent := sent (sockets st ! ws) @ [SendFrame (trim (input st))]\<rparr>]\<rparr>"
  by (simp add: sendMessage_def Let_def)

lemma sendMessage_rejected:
  "trim (input st) = [] \<or> wsRef st = None
     \<or> (\<exists>ws. wsRef st = Some ws \<and> readyState (sockets st ! ws) \<noteq> OPEN) \<Longrightarrow>
   sendMessage now st = st"
  by (auto simp: sendMessage_def Let_def split: option.splits)

text \<open>
  Claim C9, as \<open>sendMessage\<close> has it. The gate is the socket, not the status shown: when
  the trimmed input is not empty and \<open>wsRef\<close> holds a socket whose ready state is \<open>OPEN\<close>,
  the trimmed text is appended to the history as a user message and exactly one
  \<open>send\<close> frame with that text goes out on that socket, the other sockets being left
  alone. When the trimmed input is empty, \<open>wsRef\<close> is empty or the socket is not \<open>OPEN\<close>,
  \<open>sendMessage\<close> changes nothing at all. The status \<open>wsStatus\<close> has no part in it: it only
  disables the send button.
\<close>

theorem sendMessage_gate:
  "(trim (input st) \<noteq> [] \<and> wsRef st = Some ws \<and> ws < length (sockets st)
      \<and> readyState (sockets st ! ws) = OPEN \<longrightarrow>
      messages (sendMessage now st)
        = messages st @ [\<lparr>role = User, content = trim (input st), timestamp = now\<rparr>]
      \<and> sent (sockets (sendMessage now st) ! ws)
        = sent (sockets st ! ws) @ [SendFrame (trim (input st))]
      \<and> length (sockets (sendMessage now st)) = length (sockets st)
      \<and> (\<forall>j<length (sockets st). j \<noteq> ws \<longrightarrow>
            sockets (sendMessage now st) ! j = sockets st ! j))
   \<and> (trim (input st) = [] \<or> wsRef st = None
        \<or> (\<exists>ws. wsRef st = Some ws \<and> readyState (sockets st ! ws) \<noteq> OPEN) \<longrightarrow>
      sendMessage now st = st)
   \<and> sendMessage now (st\<lparr>wsStatus := s\<rparr>) = (sendMessage now st)\<lparr>wsStatus := s\<rparr>"
proof -
  have a: "trim (input st) \<noteq> [] \<and> wsRef st = Some ws \<and> ws < length (sockets st)
      \<and> readyState (sockets st ! ws) = OPEN \<longrightarrow>
      messages (sendMessage now st)
        = messages st @ [\<lparr>role = User, content = trim (input st), timestamp = now\<rparr>]
      \<and> sent (sockets (sendMessage now st) ! ws)
        = sent (sockets st ! ws) @ [SendFrame (trim (input st))]
      \<and> length (sockets (sendMessage now st)) = length (sockets st)
      \<and> (\<forall>j<length (sockets st). j \<noteq> ws \<longrightarrow>
            sockets (sendMessage now st) ! j = sockets st ! j)"
    by (simp add: sendMessage_accepted)
  have b: "trim (input st) = [] \<or> wsRef st = None
        \<or> (\<exists>ws. wsRef st = Some ws \<and> readyState (sockets st ! ws) \<noteq> OPEN) \<longrightarrow>
      sendMessage now st = st"
    using sendMessage_rejected [of st now] by blast
  have c: "sendMessage now (st\<lparr>wsStatus := s\<rparr>) = (sendMessage now st)\<lparr>wsStatus := s\<rparr>"
    by (simp add: sendMessage_def Let_def split: option.splits)
  from a b c show ?thesis by blast
qed

lemma chat_connected_eq:
  "chat_connected =
     \<lparr>messages = [], input = [], streaming = [], isThinking = False,
      wsStatus = Connected, panel_open = True, token = True,
      sockets = [\<lparr>readyState = OPEN, sent = [], closure_open = True\<rparr>],
      wsRef = Some 0, timers = [], reconnectTimer = None\<rparr>"
  by (simp add: chat_connected_def onmessage_def open_event_def setOpen_def effect_cleanup_def
      connect_def chat_init_def Let_def)

lemma trim_hi: "trim '' hi '' = ''hi''"
  by (simp add: trim_def is_space_def)

theorem sendMessage_gate_witness:
  "messages (sendMessage ''10:00:05'' (chat_connected\<lparr>input := '' hi ''\<rparr>))
     = [\<lparr>role = User, content = ''hi'', timestamp = ''10:00:05''\<rparr>]
   \<and> sent (sockets (sendMessage ''10:00:05'' (chat_connected\<lparr>input := '' hi ''\<rparr>)) ! 0)
     = [SendFrame ''hi'']
   \<and> sendMessage ''10:00:05'' (chat_init\<lparr>input := '' hi ''\<rparr>) = chat_init\<lparr>input := '' hi ''\<rparr>"
proof -
  note w = sendMessage_gate [of "chat_connected\<lparr>input := '' hi ''\<rparr>" 0 "''10:00:05''" Connected]
  note v = sendMessage_gate [of "chat_init\<lparr>input := '' hi ''\<rparr>" 0 "''10:00:05''" Connected]
  from conjunct1 [OF w]
  have "messages (sendMessage ''10:00:05'' (chat_connected\<lparr>input := '' hi ''\<rparr>))
     = [\<lparr>role = User, content = ''hi'', timestamp = ''10:00:05''\<rparr>]
   \<and> sent (sockets (sendMessage ''10:00:05'' (chat_connected\<lparr>input := '' hi ''\<rparr>)) ! 0)
     = [SendFrame ''hi'']"
    by (simp add: chat_connected_eq trim_hi)
  moreover from conjunct1 [OF conjunct2 [OF v]]
  have "sendMessage ''10:00:05'' (chat_init\<lparr>input := '' hi ''\<rparr>) = chat_init\<lparr>input := '' hi ''\<rparr>"
    by (simp add: chat_init_def)
  ultimately show ?thesis by blast
qed

text \<open>
  Claim C9 says that nothing is sent unless the connection is in the state \<open>connected\<close>.
  Between the socket's opening and the service's \<open>connected\<close> message the status is still
  \<open>connecting\<close>, and a message submitted then is appended and sent.
\<close>

theorem sendMessage_status_counterexample:
  "wsStatus ((open_event 0 (setOpen True chat_init))\<lparr>input := ''hi''\<rparr>) = Connecting
   \<and> messages (sendMessage ''10:00:05'' ((open_event 0 (setOpen True chat_init))\<lparr>input := ''hi''\<rparr>))
     = [\<lparr>role = User, content = ''hi'', timestamp = ''10:00:05''\<rparr>]
   \<and> sent (sockets (sendMessage ''10:00:05''
        ((open_event 0 (setOpen True chat_init))\<lparr>input := ''hi''\<rparr>)) ! 0)
     = [SendFrame ''hi'']"
  by (simp add: sendMessage_def open_event_def setOpen_def effect_cleanup_def
      connect_def chat_init_def Let_def trim_def is_space_def)

text \<open>
  Claim C10. A message that \<open>sendMessage\<close> accepts empties the running buffer and sets
  the thinking indicator, whatever the buffer held. The history becomes the old history
  followed by the new user message, so the text dropped from the buffer has become no
  message, and a terminal frame that comes later finalizes from its own text or \<open>...\<close>,
  never from the dropped text.
\<close>

theorem sendMessage_discards_streaming:
  assumes "trim (input st) \<noteq> []"
    and "wsRef st = Some ws"
    and "readyState (sockets st ! ws) = OPEN"
  shows "streaming (sendMessage now st) = []
       \<and> isThinking (sendMessage now st)
       \<and> messages (sendMessage now st)
           = messages st @ [\<lparr>role = User, content = trim (input st), timestamp = now\<rparr>]
       \<and> (\<forall>msg now'. msg ''type'' = Some (JStr ''final'') \<longrightarrow>
             messages (onmessage now' msg (sendMessage now st))
               = messages st @
                   [\<lparr>role = User, content = trim (input st), timestamp = now\<rparr>,
                    \<lparr>role = Assistant,
                      content =
                        (case msg ''content'' of
                           Some (JStr body) \<Rightarrow> if body \<noteq> [] then body else ''...''
                         | _ \<Rightarrow> ''...''),
                      timestamp = now'\<rparr>])"
  by (simp add: sendMessage_accepted [OF assms] onmessage_final final_content_cases)

theorem sendMessage_discards_streaming_witness:
  "streaming (sendMessage ''10:00:09''
      (receive [(''10:00:07'', delta_frame ''Partial ans'')] (chat_connected\<lparr>input := ''next''\<rparr>))) = []
   \<and> messages (sendMessage ''10:00:09''
      (receive [(''10:00:07'', delta_frame ''Partial ans'')] (chat_connected\<lparr>input := ''next''\<rparr>)))
     = [\<lparr>role = User, content = ''next'', timestamp = ''10:00:09''\<rparr>]
   \<and> streaming (receive [(''10:00:07'', delta_frame ''Partial ans'')]
        (chat_connected\<lparr>input := ''next''\<rparr>)) = ''Partial ans''"
proof -
  define st where
    "st = receive [(''10:00:07'', delta_frame ''Partial ans'')] (chat_connected\<lparr>input := ''next''\<rparr>)"
  have st: "st = chat_connected\<lparr>input := ''next'', streaming := ''Partial ans''\<rparr>"
    by (simp add: st_def receive_Cons receive_Nil onmessage_delta chat_connected_eq)
  have a: "trim (input st) \<noteq> []" by (simp add: st chat_connected_eq trim_def is_space_def)
  have b: "wsRef st = Some 0" by (simp add: st chat_connected_eq)
  have c: "readyState (sockets st ! 0) = OPEN" by (simp add: st chat_connected_eq)
  have t: "trim ''next'' = ''next''" by (simp add: trim_def is_space_def)
  from sendMessage_discards_streaming [OF a b c, of "''10:00:09''"]
  have "streaming (sendMessage ''10:00:09'' st) = []
      \<and> messages (sendMessage ''10:00:09'' st)
          = [\<lparr>role = User, content = ''next'', timestamp = ''10:00:09''\<rparr>]"
    by (simp add: st chat_connected_eq t)
  moreover have "streaming st = ''Partial ans''" by (simp add: st)
  ultimately show ?thesis by (simp add: st_def)
qed

section \<open>Cancellation and reconnection\<close>

text \<open>
  The task stream keeps the promise of claim C6: once the cleanup has set \<open>isCancelled\<close>,
  no event makes the subscription call \<open>fetch\<close> again, since \<open>connect\<close> returns before
  \<open>fetch\<close> and the \<open>catch\<close> sets no timer.
\<close>

lemma stream_step_cancelled:
  "isCancelled s \<Longrightarrow> isCancelled (stream_step s e) \<and> fetches (stream_step s e) = fetches s"
  by (cases e) (simp_all add: stream_catch_def stream_timer_def stream_connect_def stream_cleanup_def)

lemma stream_no_fetch_when_cancelled:
  "isCancelled s \<Longrightarrow> fetches (foldl stream_step s evs) = fetches s"
proof (induction evs arbitrary: s)
  case Nil
  then show ?case by simp
next
  case (Cons e evs)
  from stream_step_cancelled [OF Cons.prems, of e] Cons.IH [of "stream_step s e"]
  show ?case by simp
qed

lemma stream_no_fetch_after_cleanup:
  "fetches (foldl stream_step (stream_cleanup s) evs) = fetches s"
  using stream_no_fetch_when_cancelled [of "stream_cleanup s" evs]
  by (simp add: stream_cleanup_def)

text \<open>
  Claim C6 fails for the chat. Closing the panel runs the cleanup, which clears the
  timer held in \<open>reconnectTimer\<close> (none at that moment) and calls \<open>close()\<close> on the socket.
  The socket's close event comes after the cleanup; its handler sets a new timer, and the
  callback of that timer tests the \<open>open\<close> of its closure, which is still true. When the
  timer fires, \<open>connect\<close> constructs a second socket although the panel is closed.
\<close>

theorem chat_reconnects_after_panel_closed:
  "panel_open (setOpen False chat_connected) = False
   \<and> wsRef (setOpen False chat_connected) = None
   \<and> length (sockets (close_event 0 (setOpen False chat_connected))) = 1
   \<and> panel_open (timer_fire 0 (close_event 0 (setOpen False chat_connected))) = False
   \<and> length (sockets (timer_fire 0 (close_event 0 (setOpen False chat_connected)))) = 2
   \<and> wsRef (timer_fire 0 (close_event 0 (setOpen False chat_connected))) = Some 1
   \<and> readyState (sockets (timer_fire 0 (close_event 0 (setOpen False chat_connected))) ! 1)
       = CONNECTING
   \<and> wsStatus (timer_fire 0 (close_event 0 (setOpen False chat_connected))) = Connecting"
  by (simp add: chat_connected_eq setOpen_def effect_cleanup_def ws_close_def close_event_def
      onclose_def timer_fire_def connect_def Let_def)

section \<open>Switching the selected task\<close>

text \<open>In the page of \<open>part_001\<close> the selection is no dependency of the effect.\<close>

lemma select_task_without_dependency:
  "setSelectedTask False tok new st = st\<lparr>selectedTask := new\<rparr>"
  by (simp add: setSelectedTask_def)

text \<open>
  Claim C7, as the page of \<open>part_000\<close> has it, where \<open>selectedTask?.id\<close> is a dependency of
  the stream effect. Selecting a task with another \<open>id\<close> changes what the reconciler
  accepts by replacing the subscription: the running one is cancelled and aborted and
  its frames are applied no more, and one new subscription is started, which calls
  \<open>fetch\<close> when a token is there and whose closure has the new selection. The selection
  a subscription sees never changes during its life. Selecting a task with the same
  \<open>id\<close> leaves the subscriptions as they are.
\<close>

theorem select_task_resubscribes:
  "(ready st \<and> live st = Some k \<and> k < length (effects st)
      \<and> opt_field (selectedTask st) ''id'' \<noteq> opt_field new ''id'' \<longrightarrow>
      selectedTask (setSelectedTask True tok new st) = new
      \<and> length (effects (setSelectedTask True tok new st)) = Suc (length (effects st))
      \<and> live (setSelectedTask True tok new st) = Some (length (effects st))
      \<and> isCancelled (effects (setSelectedTask True tok new st) ! k)
      \<and> aborted (effects (setSelectedTask True tok new st) ! k)
      \<and> \<not> isCancelled (effects (setSelectedTask True tok new st) ! length (effects st))
      \<and> closure_selectedTask (effects (setSelectedTask True tok new st) ! length (effects st)) = new
      \<and> fetches (effects (setSelectedTask True tok new st) ! length (effects st))
          = (if tok then 1 else 0)
      \<and> (\<forall>j<length (effects st).
            closure_selectedTask (effects (setSelectedTask True tok new st) ! j)
              = closure_selectedTask (effects st ! j))
      \<and> (\<forall>p. stream_payload k p (setSelectedTask True tok new st)
              = setSelectedTask True tok new st)
      \<and> (\<forall>p. stream_payload (length (effects st)) p (setSelectedTask True tok new st)
              = apply_payload new p (setSelectedTask True tok new st)))
   \<and> (opt_field (selectedTask st) ''id'' = opt_field new ''id'' \<longrightarrow>
        setSelectedTask True tok new st = st\<lparr>selectedTask := new\<rparr>)"
proof -
  have same: "opt_field (selectedTask st) ''id'' = opt_field new ''id'' \<longrightarrow>
        setSelectedTask True tok new st = st\<lparr>selectedTask := new\<rparr>"
    by (simp add: setSelectedTask_def)
  have diff: "selectedTask (setSelectedTask True tok new st) = new
      \<and> length (effects (setSelectedTask True tok new st)) = Suc (length (effects st))
      \<and> live (setSelectedTask True tok new st) = Some (length (effects st))
      \<and> isCancelled (effects (setSelectedTask True tok new st) ! k)
      \<and> aborted (effects (setSelectedTask True tok new st) ! k)
      \<and> \<not> isCancelled (effects (setSelectedTask True tok new st) ! length (effects st))
      \<and> closure_selectedTask (effects (setSelectedTask True tok new st) ! length (effects st)) = new
      \<and> fetches (effects (setSelectedTask True tok new st) ! length (effects st))
          = (if tok then 1 else 0)
      \<and> (\<forall>j<length (effects st).
            closure_selectedTask (effects (setSelectedTask True tok new st) ! j)
              = closure_selectedTask (effects st ! j))
      \<and> (\<forall>p. stream_payload k p (setSelectedTask True tok new st)
              = setSelectedTask True tok new st)
      \<and> (\<forall>p. stream_payload (length (effects st)) p (setSelectedTask True tok new st)
              = apply_payload new p (setSelectedTask True tok new st))"
    if h: "ready st" "live st = Some k" "k < length (effects st)"
      "opt_field (selectedTask st) ''id'' \<noteq> opt_field new ''id''"
  proof -
    define sub where "sub = stream_connect tok
        \<lparr>isCancelled = False, aborted = False, closure_selectedTask = new,
         fetches = 0, retry_timers = 0\<rparr>"
    have st': "setSelectedTask True tok new st =
        st\<lparr>selectedTask := new,
           effects := (effects st)[k := stream_cleanup (effects st ! k)] @ [sub],
           live := Some (length (effects st))\<rparr>"
      using h by (simp add: setSelectedTask_def run_effect_def run_cleanup_def sub_def)
    have sub: "\<not> isCancelled sub" "closure_selectedTask sub = new"
      "fetches sub = (if tok then 1 else 0)"
      by (simp_all add: sub_def stream_connect_def)
    have cl: "isCancelled (stream_cleanup (effects st ! k))" "aborted (stream_cleanup (effects st ! k))"
      "closure_selectedTask (stream_cleanup s) = closure_selectedTask s" for s
      by (simp_all add: stream_cleanup_def)
    have nk: "((effects st)[k := stream_cleanup (effects st ! k)] @ [sub]) ! k
        = stream_cleanup (effects st ! k)"
      using h(3) by (simp add: nth_append)
    have nl: "((effects st)[k := stream_cleanup (effects st ! k)] @ [sub]) ! length (effects st) = sub"
      by (simp add: nth_append)
    have gates: "\<forall>j<length (effects st).
        closure_selectedTask (((effects st)[k := stream_cleanup (effects st ! k)] @ [sub]) ! j)
          = closure_selectedTask (effects st ! j)"
      using h(3) by (auto simp: nth_append nth_list_update cl(3))
    show ?thesis
      unfolding st' using h(3) sub cl(1,2) gates
      by (simp add: nk nl stream_payload_def)
  qed
  from same diff show ?thesis by blast
qed


lemma page_loaded:
  "run_effect True board_init =
     \<lparr>tasks = [], comments = [], selectedTask = None, ready = True,
      effects = [\<lparr>isCancelled = False, aborted = False, closure_selectedTask = None,
                  fetches = 1, retry_timers = 0\<rparr>],
      live = Some 0\<rparr>"
  by (simp add: run_effect_def board_init_def stream_connect_def)

theorem select_task_resubscribes_witness:
  "ready (run_effect True board_init)
   \<and> live (run_effect True board_init) = Some 0
   \<and> opt_field (selectedTask (run_effect True board_init)) ''id''
        \<noteq> opt_field (Some [''id'' \<mapsto> JStr ''T1'']) ''id''
   \<and> live (setSelectedTask True True (Some [''id'' \<mapsto> JStr ''T1'']) (run_effect True board_init))
        = Some 1
   \<and> isCancelled (effects (setSelectedTask True True (Some [''id'' \<mapsto> JStr ''T1''])
        (run_effect True board_init)) ! 0)
   \<and> fetches (effects (setSelectedTask True True (Some [''id'' \<mapsto> JStr ''T1''])
        (run_effect True board_init)) ! 1) = 1"
proof -
  have h: "ready (run_effect True board_init) \<and> live (run_effect True board_init) = Some 0
      \<and> 0 < length (effects (run_effect True board_init))
      \<and> opt_field (selectedTask (run_effect True board_init)) ''id''
           \<noteq> opt_field (Some [''id'' \<mapsto> JStr ''T1'']) ''id''"
    by (simp add: page_loaded opt_field_def)
  have len: "length (effects (run_effect True board_init)) = 1" by (simp add: page_loaded)
  from mp [OF conjunct1 [OF select_task_resubscribes
        [of "run_effect True board_init" 0 "Some [''id'' \<mapsto> JStr ''T1'']" True]] h] h len
  show ?thesis by simp
qed

text \<open>
  Claim C7 says that the gate follows the selection while the same connection keeps
  running. In the page of \<open>part_000\<close> the selection of \<open>T1\<close> cancels the running
  subscription and starts another one with a new \<open>fetch\<close>. In the page of \<open>part_001\<close> the
  subscription stays, and so does the selection its closure sees: a comment for \<open>T1\<close>
  that arrives after \<open>T1\<close> was selected is not stored.
\<close>

theorem select_task_counterexample:
  "live (run_effect True board_init) = Some 0
   \<and> live (setSelectedTask True True (Some [''id'' \<mapsto> JStr ''T1'']) (run_effect True board_init))
        = Some 1
   \<and> isCancelled (effects (setSelectedTask True True (Some [''id'' \<mapsto> JStr ''T1''])
        (run_effect True board_init)) ! 0)
   \<and> fetches (effects (setSelectedTask True True (Some [''id'' \<mapsto> JStr ''T1''])
        (run_effect True board_init)) ! 1) = 1
   \<and> live (setSelectedTask False True (Some [''id'' \<mapsto> JStr ''T1'']) (run_effect True board_init))
        = Some 0
   \<and> comments (stream_payload 0
        \<lparr>ptype = Some ''task.comment'', task = None,
         comment = Some [''id'' \<mapsto> JStr ''c1'', ''task_id'' \<mapsto> JStr ''T1'']\<rparr>
        (setSelectedTask False True (Some [''id'' \<mapsto> JStr ''T1'']) (run_effect True board_init)))
        = []"
  unfolding page_loaded
  by (simp add: setSelectedTask_def run_effect_def run_cleanup_def
      stream_cleanup_def stream_connect_def stream_payload_def apply_payload_def
      comment_updater_def opt_field_def)

end
